theory Spec2Isabelle
  imports Complex_Main "HOL-Library.Sublist" "HOL-Library.List_Lexorder" "HOL-Library.Char_ord"
begin

section \<open>Errors and configuration\<close>

text \<open>
  The source signals every failure by raising. The archive module has a single exception
  class, \<open>ArchiveSecurityError\<close>, and tells its failures apart by the message only; the
  model keeps the class and records the raise site as its argument.
\<close>

datatype archive_reason =
    RatioTooHigh          \<comment> \<open>archive.py line 28\<close>
  | ZeroCompressed        \<comment> \<open>archive.py line 34\<close>
  | TooManyFiles          \<comment> \<open>archive.py line 63\<close>
  | TotalTooLarge         \<comment> \<open>archive.py line 75\<close>
  | BadZip                \<comment> \<open>archive.py lines 80 and 190\<close>
  | DepthExceeded         \<comment> \<open>archive.py line 112\<close>
  | ZipSlip               \<comment> \<open>archive.py line 131\<close>
  | EscapesDestination    \<comment> \<open>archive.py line 139\<close>
  | ExtractTooLarge       \<comment> \<open>archive.py line 170\<close>
  | CreateTooManyFiles    \<comment> \<open>archive.py line 234\<close>
  | CreateTooLarge        \<comment> \<open>archive.py line 239\<close>
  | SourceNotFound        \<comment> \<open>archive.py line 243\<close>
  | CreateFailed          \<comment> \<open>archive.py line 262\<close>

datatype error =
    PermissionError
  | ValueError
  | FileNotFoundError
  | OSError
  | KeyError
  | TimeoutError
  | RuntimeError
  | ArchiveSecurityError archive_reason


fun is_security_violation :: "error \<Rightarrow> bool" where
  "is_security_violation PermissionError = True"
| "is_security_violation (ArchiveSecurityError r) = (r = ZipSlip \<or> r = EscapesDestination)"
| "is_security_violation _ = False"

text \<open>
  \<open>Config\<close> of config.py. \<open>ZIP_MAX_RATIO\<close> is a float there; the quotient
  \<open>file_size / compress_size\<close> of two integers is modelled as the exact rational.
\<close>

record config =
  max_upload_size :: int
  max_filename_length :: int
  zip_max_total_size :: int
  zip_max_ratio :: rat
  zip_max_files :: int
  zip_max_recursion_depth :: int

definition default_config :: config where
  "default_config =
     \<lparr> max_upload_size = 20971520, max_filename_length = 255,
       zip_max_total_size = 2147483648, zip_max_ratio = 100,
       zip_max_files = 1000, zip_max_recursion_depth = 5 \<rparr>"

section \<open>Archive metadata validation\<close>

text \<open>\<open>zipfile.ZipInfo\<close>, the three fields the source reads.\<close>

record zipinfo =
  filename :: string
  compress_size :: nat
  file_size :: nat

text \<open>
  A file's content: its length in bytes and, when the bytes form a valid ZIP container, the
  entries of its central directory in order, each with the stream that opening the entry
  yields. \<open>None\<close> is a file on which \<open>zipfile.ZipFile\<close> raises \<open>BadZipFile\<close>.
\<close>

datatype blob = Blob (blob_len: nat) (zip_view: "(zipinfo \<times> blob) list option")

definition validate_zip_entry :: "config \<Rightarrow> zipinfo \<Rightarrow> error + unit" where
  "validate_zip_entry cfg entry =
     (if compress_size entry > 0 then
        (let ratio = (of_nat (file_size entry) :: rat) / of_nat (compress_size entry)
         in if ratio > zip_max_ratio cfg then Inl (ArchiveSecurityError RatioTooHigh)
            else Inr ())
      else if file_size entry > 0 then Inl (ArchiveSecurityError ZeroCompressed)
      else Inr ())"

record validation =
  file_count :: nat
  total_uncompressed :: nat
  total_compressed :: nat

text \<open>The \<open>for entry in zf.infolist()\<close> loop of \<open>validate_zip_file\<close>.\<close>

fun validate_entries :: "config \<Rightarrow> zipinfo list \<Rightarrow> validation \<Rightarrow> error + validation" where
  "validate_entries cfg [] acc = Inr acc"
| "validate_entries cfg (entry # rest) acc =
     (let fc = file_count acc + 1 in
      if int fc > zip_max_files cfg then Inl (ArchiveSecurityError TooManyFiles)
      else case validate_zip_entry cfg entry of
        Inl e \<Rightarrow> Inl e
      | Inr _ \<Rightarrow>
          (let tu = total_uncompressed acc + file_size entry;
               tc = total_compressed acc + compress_size entry
           in if int tu > zip_max_total_size cfg then Inl (ArchiveSecurityError TotalTooLarge)
              else validate_entries cfg rest
                     \<lparr> file_count = fc, total_uncompressed = tu, total_compressed = tc \<rparr>))"


section \<open>Paths and the path resolver\<close>

text \<open>
  Strings are Python \<open>str\<close> values on a POSIX system (\<open>os.path.sep\<close> is \<open>/\<close>). An absolute
  \<open>pathlib.Path\<close> is the list of its components below the root directory, so \<open>[]\<close> is
  \<open>/\<close>. The file system is taken without symbolic links, so that \<open>Path.resolve\<close> is the
  lexical canonicalisation \<open>os.path.realpath\<close> performs on component names.
\<close>

type_synonym path = "string list"

text \<open>\<open>str.split('/')\<close>.\<close>

fun split_sep :: "string \<Rightarrow> string list" where
  "split_sep [] = [[]]"
| "split_sep (c # cs) =
     (if c = CHR ''/'' then [] # split_sep cs
      else (case split_sep cs of [] \<Rightarrow> [[c]] | w # ws \<Rightarrow> (c # w) # ws))"

text \<open>\<open>'/'.join(comps)\<close>.\<close>

fun join_sep :: "string list \<Rightarrow> string" where
  "join_sep [] = []"
| "join_sep [x] = x"
| "join_sep (x # y # ys) = x @ CHR ''/'' # join_sep (y # ys)"

text \<open>The component loop of \<open>posixpath.normpath\<close>; \<open>new_comps\<close> is the list built so far.\<close>

fun normpath_comps :: "nat \<Rightarrow> string list \<Rightarrow> string list \<Rightarrow> string list" where
  "normpath_comps initial_slashes [] new_comps = new_comps"
| "normpath_comps initial_slashes (seg # comps) new_comps =
     (if seg = [] \<or> seg = ''.'' then normpath_comps initial_slashes comps new_comps
      else if seg \<noteq> ''..'' \<or> (initial_slashes = 0 \<and> new_comps = [])
                \<or> (new_comps \<noteq> [] \<and> last new_comps = ''..'')
        then normpath_comps initial_slashes comps (new_comps @ [seg])
      else if new_comps \<noteq> [] then normpath_comps initial_slashes comps (butlast new_comps)
      else normpath_comps initial_slashes comps new_comps)"

definition initial_slashes :: "string \<Rightarrow> nat" where
  "initial_slashes p =
     (if take 1 p = ''/'' then (if take 2 p = ''//'' \<and> take 3 p \<noteq> ''///'' then 2 else 1)
      else 0)"

definition normpath :: "string \<Rightarrow> string" where
  "normpath p =
     (if p = [] then ''.''
      else
        (let comps = normpath_comps (initial_slashes p) (split_sep p) [];
             q = replicate (initial_slashes p) (CHR ''/'') @ join_sep comps
         in if q = [] then ''.'' else q))"

text \<open>\<open>str.lstrip('/')\<close>.\<close>

definition lstrip_sep :: "string \<Rightarrow> string" where
  "lstrip_sep s = dropWhile (\<lambda>c. c = CHR ''/'') s"

text \<open>
  The components \<open>pathlib\<close> keeps of a string: empty segments and \<open>.\<close> are dropped,
  \<open>..\<close> is kept.
\<close>

definition pure_parts :: "string \<Rightarrow> string list" where
  "pure_parts s = filter (\<lambda>c. c \<noteq> [] \<and> c \<noteq> ''.'') (split_sep s)"

text \<open>\<open>base / s\<close>: a string that starts with the separator is absolute and replaces the base.\<close>

definition joinpath :: "path \<Rightarrow> string \<Rightarrow> path" where
  "joinpath base s = (if take 1 s = ''/'' then pure_parts s else base @ pure_parts s)"

text \<open>\<open>Path.resolve()\<close> on an absolute path: \<open>..\<close> removes the last component, and stays
  at the root directory.\<close>

fun realpath_comps :: "path \<Rightarrow> string list \<Rightarrow> path" where
  "realpath_comps acc [] = acc"
| "realpath_comps acc (c # cs) =
     (if c = ''..'' then realpath_comps (butlast acc) cs else realpath_comps (acc @ [c]) cs)"

definition resolve :: "path \<Rightarrow> path" where
  "resolve p = realpath_comps [] p"

text \<open>\<open>str(path)\<close>.\<close>

definition path_str :: "path \<Rightarrow> string" where
  "path_str p = (if p = [] then ''/'' else concat (map (\<lambda>c. CHR ''/'' # c) p))"

text \<open>
  \<open>resolve_secure_path(relative_path, base_path)\<close> of security.py; \<open>base_path\<close> is
  \<open>config.SANDBOX_ROOT\<close> when the caller gives none.
\<close>

definition resolve_secure_path :: "path \<Rightarrow> string \<Rightarrow> error + path" where
  "resolve_secure_path base_path relative_path =
     (let normalized = normpath relative_path;
          normalized = (if CHR ''/'' \<in> set normalized \<and> take 1 normalized = ''/''
                        then lstrip_sep normalized else normalized);
          full_path = resolve (joinpath base_path normalized);
          base_resolved = resolve base_path
      in if \<not> prefix (path_str base_resolved) (path_str full_path)
         then Inl PermissionError
         else Inr full_path)"

text \<open>
  Containment as the specification words it: the canonical string equals the sandbox root's
  canonical string, or has it as a strict prefix followed by a separator.
\<close>

definition spec_inside_sandbox :: "path \<Rightarrow> path \<Rightarrow> bool" where
  "spec_inside_sandbox sandbox p =
     (path_str p = path_str sandbox \<or> prefix (path_str sandbox @ ''/'') (path_str p))"

text \<open>A canonical component: a non-empty name without separator that is neither \<open>.\<close> nor \<open>..\<close>.\<close>

definition canonical_comp :: "string \<Rightarrow> bool" where
  "canonical_comp c = (c \<noteq> [] \<and> c \<noteq> ''.'' \<and> c \<noteq> ''..'' \<and> CHR ''/'' \<notin> set c)"

definition canonical :: "path \<Rightarrow> bool" where
  "canonical p = list_all canonical_comp p"

text \<open>
  Names for two intermediate values of \<open>resolve_secure_path\<close>: the string \<open>normalized\<close>
  as it stands at line 33, and the component list \<open>normpath\<close> builds for an input.
\<close>

definition normalized_rel :: "string \<Rightarrow> string" where
  "normalized_rel relative_path =
     (let normalized = normpath relative_path
      in if CHR ''/'' \<in> set normalized \<and> take 1 normalized = ''/''
         then lstrip_sep normalized else normalized)"

definition norm_comps :: "string \<Rightarrow> string list" where
  "norm_comps rel = normpath_comps (initial_slashes rel) (split_sep rel) []"

definition clean :: "string \<Rightarrow> bool" where
  "clean c = (c \<noteq> [] \<and> c \<noteq> ''.'' \<and> CHR ''/'' \<notin> set c)"

section \<open>File system\<close>

text \<open>
  A file system maps an absolute path to what is stored there: a regular file with its
  content, or a directory. The root directory \<open>[]\<close> always exists. Failures of the
  operating system (opening a directory for writing, creating a directory where a file
  stands) are the error \<open>OSError\<close>.
\<close>

datatype 'c node = File 'c | Dir

type_synonym 'c fs = "path \<Rightarrow> 'c node option"

definition is_file :: "'c fs \<Rightarrow> path \<Rightarrow> bool" where
  "is_file fs p = (case fs p of Some (File _) \<Rightarrow> True | _ \<Rightarrow> False)"

definition is_dir :: "'c fs \<Rightarrow> path \<Rightarrow> bool" where
  "is_dir fs p = (p = [] \<or> fs p = Some Dir)"

text \<open>\<open>Path.mkdir(parents=True, exist_ok=True)\<close>.\<close>

definition mkdir_parents :: "'c fs \<Rightarrow> path \<Rightarrow> error + 'c fs" where
  "mkdir_parents fs p =
     (if list_ex (is_file fs) (prefixes p) then Inl OSError
      else Inr (\<lambda>q. if prefix q p then Some Dir else fs q))"

section \<open>Archive extraction\<close>

text \<open>
  \<open>zipfile.ZipFile(zip_path, 'r')\<close>: the central directory of the file at \<open>zip_path\<close>.
  \<open>BadZipFile\<close> is turned into \<open>ArchiveSecurityError\<close> by both callers.
\<close>

definition open_zip :: "blob fs \<Rightarrow> path \<Rightarrow> error + (zipinfo \<times> blob) list" where
  "open_zip fs zip_path =
     (case fs zip_path of
        None \<Rightarrow> Inl FileNotFoundError
      | Some Dir \<Rightarrow> Inl OSError
      | Some (File b) \<Rightarrow>
          (case zip_view b of None \<Rightarrow> Inl (ArchiveSecurityError BadZip) | Some entries \<Rightarrow> Inr entries))"

text \<open>\<open>zf.getinfo(name)\<close>: of several entries with one name the last one is kept.\<close>

definition getinfo :: "(zipinfo \<times> blob) list \<Rightarrow> string \<Rightarrow> (zipinfo \<times> blob) option" where
  "getinfo entries name = find (\<lambda>e. filename (fst e) = name) (rev entries)"

text \<open>
  The \<open>while True\<close> loop of lines 163 to 174: \<open>source.read(chunk_size)\<close> yields at most
  8192 bytes of the \<open>remaining\<close> stream, \<open>total_size\<close> is the running total and \<open>written\<close>
  counts the bytes passed to \<open>target.write\<close>.
\<close>

function copy_chunks :: "int \<Rightarrow> nat \<Rightarrow> nat \<Rightarrow> nat \<Rightarrow> nat \<times> (error + unit)" where
  "copy_chunks cap remaining total_size written =
     (let chunk = min 8192 remaining in
      if chunk = 0 then (written, Inr ())
      else
        (let total_size = total_size + chunk in
         if int total_size > cap then (written, Inl (ArchiveSecurityError ExtractTooLarge))
         else copy_chunks cap (remaining - chunk) total_size (written + chunk)))"
  by pat_completeness auto
termination
  by (relation "measure (\<lambda>(cap, remaining, total_size, written). remaining)") auto

text \<open>
  Lines 157 to 174 for one entry: the target is opened for writing (truncating it) and the
  stream is copied. When the copy is cut short the file keeps the bytes written so far.
\<close>

definition write_stream :: "config \<Rightarrow> blob fs \<Rightarrow> path \<Rightarrow> blob \<Rightarrow> blob fs \<times> (error + unit)" where
  "write_stream cfg fs target src =
     (if is_dir fs target then (fs, Inl OSError)
      else case copy_chunks (zip_max_total_size cfg) (blob_len src) 0 0 of
             (written, Inl e) \<Rightarrow> (fs(target \<mapsto> File (Blob written None)), Inl e)
           | (written, Inr _) \<Rightarrow> (fs(target \<mapsto> File src), Inr ()))"

text \<open>\<open>str.lower\<close> on ASCII letters, and \<open>PurePath.stem\<close>.\<close>

definition lower_char :: "char \<Rightarrow> char" where
  "lower_char c = (if CHR ''A'' \<le> c \<and> c \<le> CHR ''Z'' then char_of (of_char c + (32::nat)) else c)"

definition lower :: "string \<Rightarrow> string" where
  "lower s = map lower_char s"

fun rfind_dot :: "string \<Rightarrow> nat option" where
  "rfind_dot [] = None"
| "rfind_dot (c # cs) =
     (case rfind_dot cs of Some i \<Rightarrow> Some (Suc i)
      | None \<Rightarrow> if c = CHR ''.'' then Some 0 else None)"

definition stem :: "string \<Rightarrow> string" where
  "stem name =
     (case rfind_dot name of
        Some i \<Rightarrow> if 0 < i \<and> i < length name - 1 then take i name else name
      | None \<Rightarrow> name)"

text \<open>
  \<open>safe_extract_zip(zip_path, destination, max_depth)\<close> and its loop over
  \<open>zf.namelist()\<close>. The file system is threaded through and returned also when the call
  raises, since what was written before the error stays on disk. \<open>destination\<close> is the
  string form of the path the caller passes.
\<close>

function (sequential)
  safe_extract_zip :: "config \<Rightarrow> path \<Rightarrow> blob fs \<Rightarrow> path \<Rightarrow> string \<Rightarrow> int \<Rightarrow> blob fs \<times> (error + path list)"
and
  extract_entries :: "config \<Rightarrow> path \<Rightarrow> (zipinfo \<times> blob) list \<Rightarrow> path \<Rightarrow> int \<Rightarrow> string list
                      \<Rightarrow> blob fs \<Rightarrow> path list \<Rightarrow> blob fs \<times> (error + path list)"
where
  "safe_extract_zip cfg sandbox fs zip_path destination max_depth =
     (if max_depth \<le> 0 then (fs, Inl (ArchiveSecurityError DepthExceeded))
      else case open_zip fs zip_path of
        Inl e \<Rightarrow> (fs, Inl e)
      | Inr entries \<Rightarrow>
         (case validate_entries cfg (map fst entries)
                 \<lparr> file_count = 0, total_uncompressed = 0, total_compressed = 0 \<rparr> of
            Inl e \<Rightarrow> (fs, Inl e)
          | Inr _ \<Rightarrow>
             (case resolve_secure_path sandbox destination of
                Inl e \<Rightarrow> (fs, Inl e)
              | Inr dest_path \<Rightarrow>
                 (case mkdir_parents fs dest_path of
                    Inl e \<Rightarrow> (fs, Inl e)
                  | Inr fs1 \<Rightarrow>
                      extract_entries cfg sandbox entries dest_path max_depth
                        (map (\<lambda>e. filename (fst e)) entries) fs1 []))))"
| "extract_entries cfg sandbox entries dest_path max_depth [] fs extracted_files =
     (fs, Inr extracted_files)"
| "extract_entries cfg sandbox entries dest_path max_depth (entry # rest) fs extracted_files =
     (if take 1 entry = ''/'' \<or> ''..'' \<in> set (pure_parts entry)
      then (fs, Inl (ArchiveSecurityError ZipSlip))
      else
        (let full_entry_path = resolve (dest_path @ pure_parts entry) in
         if \<not> prefix (path_str (resolve dest_path)) (path_str full_entry_path)
         then (fs, Inl (ArchiveSecurityError EscapesDestination))
         else case getinfo entries entry of
           None \<Rightarrow> (fs, Inl KeyError)
         | Some (entry_info, src) \<Rightarrow>
            (case validate_zip_entry cfg entry_info of
               Inl e \<Rightarrow> (fs, Inl e)
             | Inr _ \<Rightarrow>
                if suffix ''/'' entry then
                  (case mkdir_parents fs full_entry_path of
                     Inl e \<Rightarrow> (fs, Inl e)
                   | Inr fs1 \<Rightarrow>
                       extract_entries cfg sandbox entries dest_path max_depth rest fs1
                         extracted_files)
                else
                  (case mkdir_parents fs (butlast full_entry_path) of
                     Inl e \<Rightarrow> (fs, Inl e)
                   | Inr fs1 \<Rightarrow>
                      (case write_stream cfg fs1 full_entry_path src of
                         (fs2, Inl e) \<Rightarrow> (fs2, Inl e)
                       | (fs2, Inr _) \<Rightarrow>
                          if suffix ''.zip'' (lower entry) then
                            (case safe_extract_zip cfg sandbox fs2 full_entry_path
                                    (path_str (butlast full_entry_path @ [stem (last full_entry_path)]))
                                    (max_depth - 1) of
                               (fs3, Inl e) \<Rightarrow> (fs3, Inl e)
                             | (fs3, Inr nested) \<Rightarrow>
                                 extract_entries cfg sandbox entries dest_path max_depth rest fs3
                                   ((extracted_files @ [full_entry_path]) @ nested))
                          else
                            extract_entries cfg sandbox entries dest_path max_depth rest fs2
                              (extracted_files @ [full_entry_path]))))))"
  by pat_completeness auto
termination
  apply (relation "measures
     [(\<lambda>x. case x of
          Inl (cfg, sandbox, fs, zip_path, destination, max_depth) \<Rightarrow>
            (if max_depth \<le> 0 then 0 else 2 * nat max_depth + 2)
        | Inr (cfg, sandbox, entries, dest_path, max_depth, names, fs, extracted) \<Rightarrow>
            2 * nat max_depth + 1),
      (\<lambda>x. case x of
          Inl _ \<Rightarrow> 0
        | Inr (cfg, sandbox, entries, dest_path, max_depth, names, fs, extracted) \<Rightarrow>
            length names)]")
  apply auto
  done



text \<open>
  The call without \<open>max_depth\<close>: lines 108 and 109 take the budget from the configuration.
\<close>

definition safe_extract_zip_default ::
  "config \<Rightarrow> path \<Rightarrow> blob fs \<Rightarrow> path \<Rightarrow> string \<Rightarrow> blob fs \<times> (error + path list)" where
  "safe_extract_zip_default cfg sandbox fs zip_path destination =
     safe_extract_zip cfg sandbox fs zip_path destination (zip_max_recursion_depth cfg)"

text \<open>
  An entry name the extraction loop refuses at line 130: an absolute path, or a path with a
  parent-directory segment.
\<close>

definition bad_name :: "string \<Rightarrow> bool" where
  "bad_name entry = (take 1 entry = ''/'' \<or> ''..'' \<in> set (pure_parts entry))"


section \<open>File name validation\<close>

text \<open>\<open>validate_filename\<close> of security.py.\<close>

definition basename :: "string \<Rightarrow> string" where
  "basename s = last (split_sep s)"

definition upper_char :: "char \<Rightarrow> char" where
  "upper_char c = (if CHR ''a'' \<le> c \<and> c \<le> CHR ''z'' then char_of (of_char c - (32::nat)) else c)"

definition upper :: "string \<Rightarrow> string" where
  "upper s = map upper_char s"

definition invalid_chars :: "char list" where
  "invalid_chars = [CHR ''<'', CHR ''>'', CHR '':'', CHR 0x22, CHR ''|'', CHR ''?'', CHR ''*'', CHR 0x5C]"

definition reserved_names :: "string list" where
  "reserved_names =
     [''CON'', ''PRN'', ''AUX'', ''NUL'',
      ''COM1'', ''COM2'', ''COM3'', ''COM4'', ''COM5'', ''COM6'', ''COM7'', ''COM8'', ''COM9'',
      ''LPT1'', ''LPT2'', ''LPT3'', ''LPT4'', ''LPT5'', ''LPT6'', ''LPT7'', ''LPT8'', ''LPT9'']"

definition validate_filename :: "config \<Rightarrow> string \<Rightarrow> error + string" where
  "validate_filename cfg fname =
     (let safe_name = basename fname in
      if int (length safe_name) > max_filename_length cfg then Inl ValueError
      else if list_ex (\<lambda>c. c \<in> set safe_name) invalid_chars then Inl ValueError
      else if upper safe_name \<in> set reserved_names then Inl ValueError
      else Inr safe_name)"

definition path_name :: "path \<Rightarrow> string" where
  "path_name p = (if p = [] then [] else last p)"

section \<open>Archive creation\<close>

text \<open>
  Creation walks directories, so here the file system is a listing: the finite list of
  existing paths with their nodes, read through \<open>map_of\<close>. \<open>rglob\<close> enumerates the paths
  strictly below a directory in listing order.
\<close>

type_synonym listing = "(path \<times> blob node) list"

definition rglob :: "listing \<Rightarrow> path \<Rightarrow> path list" where
  "rglob files d = filter (\<lambda>q. strict_prefix d q) (map fst files)"

definition st_size :: "listing \<Rightarrow> path \<Rightarrow> nat" where
  "st_size files p = (case map_of files p of Some (File b) \<Rightarrow> blob_len b | _ \<Rightarrow> 0)"

text \<open>The inner loop of lines 228 to 241 over \<open>source_path.rglob('*')\<close>.\<close>

fun walk_dir :: "config \<Rightarrow> listing \<Rightarrow> path list \<Rightarrow> nat \<times> nat \<Rightarrow> error + nat \<times> nat" where
  "walk_dir cfg files [] (total_size, fcount) = Inr (total_size, fcount)"
| "walk_dir cfg files (file_path # rest) (total_size, fcount) =
     (if is_file (map_of files) file_path then
        (let fcount = fcount + 1;
             total_size = total_size + st_size files file_path
         in if int fcount > zip_max_files cfg then Inl (ArchiveSecurityError CreateTooManyFiles)
            else if int total_size > zip_max_total_size cfg
              then Inl (ArchiveSecurityError CreateTooLarge)
            else walk_dir cfg files rest (total_size, fcount))
      else walk_dir cfg files rest (total_size, fcount))"

text \<open>The loop of lines 220 to 243 over \<open>sources\<close>.\<close>

fun check_sources :: "config \<Rightarrow> path \<Rightarrow> listing \<Rightarrow> string list \<Rightarrow> nat \<times> nat \<Rightarrow> error + nat \<times> nat" where
  "check_sources cfg sandbox files [] (total_size, fcount) = Inr (total_size, fcount)"
| "check_sources cfg sandbox files (source # rest) (total_size, fcount) =
     (case resolve_secure_path sandbox source of
        Inl e \<Rightarrow> Inl e
      | Inr source_path \<Rightarrow>
          if is_file (map_of files) source_path then
            check_sources cfg sandbox files rest
              (total_size + st_size files source_path, fcount + 1)
          else if is_dir (map_of files) source_path then
            (case walk_dir cfg files (rglob files source_path) (total_size, fcount) of
               Inl e \<Rightarrow> Inl e
             | Inr acc \<Rightarrow> check_sources cfg sandbox files rest acc)
          else Inl (ArchiveSecurityError SourceNotFound))"



text \<open>
  The \<open>zipfile\<close> writer is a parameter: the compressed size it reaches for a content and
  the size of the container it produces for a list of members.
\<close>

record zip_writer =
  deflated_size :: "blob \<Rightarrow> nat"
  container_size :: "(zipinfo \<times> blob) list \<Rightarrow> nat"

definition put_file :: "listing \<Rightarrow> path \<Rightarrow> blob \<Rightarrow> listing" where
  "put_file files p b = filter (\<lambda>e. fst e \<noteq> p) files @ [(p, File b)]"

definition unlink :: "listing \<Rightarrow> path \<Rightarrow> listing" where
  "unlink files p = filter (\<lambda>e. fst e \<noteq> p) files"

definition zip_member :: "zip_writer \<Rightarrow> listing \<Rightarrow> path \<Rightarrow> string \<Rightarrow> (zipinfo \<times> blob) list" where
  "zip_member w files p arcname =
     (case map_of files p of
        Some (File b) \<Rightarrow>
          [(\<lparr> filename = arcname, compress_size = deflated_size w b, file_size = blob_len b \<rparr>, b)]
      | _ \<Rightarrow> [])"

fun write_members :: "path \<Rightarrow> zip_writer \<Rightarrow> listing \<Rightarrow> string list \<Rightarrow> error + (zipinfo \<times> blob) list" where
  "write_members sandbox w files [] = Inr []"
| "write_members sandbox w files (source # rest) =
     (case resolve_secure_path sandbox source of
        Inl e \<Rightarrow> Inl e
      | Inr source_path \<Rightarrow>
          (case write_members sandbox w files rest of
             Inl e \<Rightarrow> Inl e
           | Inr others \<Rightarrow>
               if is_file (map_of files) source_path then
                 Inr (zip_member w files source_path (path_name source_path) @ others)
               else if is_dir (map_of files) source_path then
                 Inr (concat (map (\<lambda>file_path.
                        zip_member w files file_path
                          (join_sep (drop (length source_path - 1) file_path)))
                        (rglob files source_path)) @ others)
               else Inr others))"

definition safe_create_zip ::
  "config \<Rightarrow> path \<Rightarrow> zip_writer \<Rightarrow> listing \<Rightarrow> string list \<Rightarrow> string \<Rightarrow> listing \<times> (error + path)" where
  "safe_create_zip cfg sandbox w files sources destination =
     (case resolve_secure_path sandbox destination of
        Inl e \<Rightarrow> (files, Inl e)
      | Inr dest_path \<Rightarrow>
         (case validate_filename cfg (path_name dest_path) of
            Inl e \<Rightarrow> (files, Inl e)
          | Inr _ \<Rightarrow>
             (case check_sources cfg sandbox files sources (0, 0) of
                Inl e \<Rightarrow> (files, Inl e)
              | Inr _ \<Rightarrow>
                  if is_dir (map_of files) dest_path then (files, Inl OSError)
                  else if \<not> is_dir (map_of files) (butlast dest_path)
                    then (files, Inl (ArchiveSecurityError CreateFailed))
                  else
                    (case write_members sandbox w files sources of
                       Inl e \<Rightarrow> (unlink files dest_path, Inl (ArchiveSecurityError CreateFailed))
                     | Inr members \<Rightarrow>
                         (put_file files dest_path (Blob (container_size w members) (Some members)),
                          Inr dest_path)))))"

section \<open>Atomic file write\<close>





section \<open>Lock manager\<close>

text \<open>
  \<open>LockManager\<close> of locking.py, seen from one call. The registry maps a canonical key to
  its lock, \<open>True\<close> when the lock is taken. A lock taken by another task stays taken for
  the whole wait, so \<open>asyncio.wait_for(lock.acquire(), timeout)\<close> raises \<open>TimeoutError\<close> on
  it and returns \<open>True\<close> on a free lock. \<open>trace\<close> records the acquisitions and releases in
  the order they happen. \<open>operation\<close> is the outcome of the awaited operation.
\<close>

datatype event = Acquire string | Release string

record lock_manager =
  locks :: "string \<Rightarrow> bool option"
  trace :: "event list"

definition get_lock_key :: "path \<Rightarrow> string \<Rightarrow> string" where
  "get_lock_key cwd p = path_str (resolve (joinpath cwd p))"

definition get_lock :: "path \<Rightarrow> lock_manager \<Rightarrow> string \<Rightarrow> lock_manager \<times> string" where
  "get_lock cwd m p =
     (let key = get_lock_key cwd p in
      (if locks m key = None then m\<lparr> locks := (locks m)(key \<mapsto> False) \<rparr> else m, key))"

definition wait_for_acquire :: "lock_manager \<Rightarrow> string \<Rightarrow> lock_manager \<times> (error + bool)" where
  "wait_for_acquire m key =
     (if locks m key = Some True then (m, Inl TimeoutError)
      else (m\<lparr> locks := (locks m)(key \<mapsto> True), trace := trace m @ [Acquire key] \<rparr>, Inr True))"

definition release :: "lock_manager \<Rightarrow> string \<Rightarrow> lock_manager \<times> (error + unit)" where
  "release m key =
     (if locks m key = Some True
      then (m\<lparr> locks := (locks m)(key \<mapsto> False), trace := trace m @ [Release key] \<rparr>, Inr ())
      else (m, Inl RuntimeError))"

fun release_each :: "lock_manager \<Rightarrow> string list \<Rightarrow> lock_manager \<times> (error + unit)" where
  "release_each m [] = (m, Inr ())"
| "release_each m (l # ls) =
     (case release m l of
        (m1, Inl e) \<Rightarrow> (m1, Inl e)
      | (m1, Inr _) \<Rightarrow> release_each m1 ls)"

fun acquire_sorted ::
  "path \<Rightarrow> lock_manager \<Rightarrow> string list \<Rightarrow> string list \<Rightarrow> lock_manager \<times> string list \<times> (error + unit)" where
  "acquire_sorted cwd m [] held = (m, held, Inr ())"
| "acquire_sorted cwd m (path_key # rest) held =
     (case get_lock cwd m path_key of
        (m1, lock) \<Rightarrow>
          (case wait_for_acquire m1 lock of
             (m2, Inl e) \<Rightarrow> (m2, held, Inl e)
           | (m2, Inr True) \<Rightarrow> acquire_sorted cwd m2 rest (held @ [lock])
           | (m2, Inr False) \<Rightarrow>
               (case release_each m2 held of
                  (m3, Inl e) \<Rightarrow> (m3, held, Inl e)
                | (m3, Inr _) \<Rightarrow> (m3, held, Inl TimeoutError))))"

definition execute_locked_multi ::
  "path \<Rightarrow> lock_manager \<Rightarrow> string list \<Rightarrow> (error + 'a) \<Rightarrow> lock_manager \<times> (error + 'a)" where
  "execute_locked_multi cwd m paths operation =
     (let sorted_paths = sort (map (get_lock_key cwd) paths) in
      case acquire_sorted cwd m sorted_paths [] of
        (m1, held, r) \<Rightarrow>
          (let outcome = (case r of Inl e \<Rightarrow> Inl e | Inr _ \<Rightarrow> operation) in
           case release_each m1 (rev held) of
             (m2, Inl e) \<Rightarrow> (m2, Inl e)
           | (m2, Inr _) \<Rightarrow> (m2, outcome)))"

definition is_locked :: "lock_manager \<Rightarrow> string \<Rightarrow> bool" where
  "is_locked m k = (locks m k = Some True)"

section \<open>Example inputs\<close>


definition example_locks :: lock_manager where
  "example_locks = \<lparr> locks = (\<lambda>k. None)(''/w/b'' \<mapsto> False, ''/w/c'' \<mapsto> True), trace = [] \<rparr>"

definition small_config :: config where
  "small_config = default_config\<lparr> zip_max_files := 2, zip_max_total_size := 10 \<rparr>"

definition example_listing :: listing where
  "example_listing =
     [([''s''], Dir),
      ([''s'', ''a''], File (Blob 5 None)),
      ([''s'', ''b''], File (Blob 5 None)),
      ([''s'', ''c''], File (Blob 5 None)),
      ([''s'', ''d''], Dir),
      ([''s'', ''d'', ''x''], File (Blob 5 None)),
      ([''s'', ''d'', ''y''], File (Blob 5 None)),
      ([''s'', ''d'', ''z''], File (Blob 5 None))]"

definition example_writer :: zip_writer where
  "example_writer =
     \<lparr> deflated_size = blob_len,
       container_size = (\<lambda>members. 22 + sum_list (map (\<lambda>e. 100 + blob_len (snd e)) members)) \<rparr>"

definition example_sandbox :: path where
  "example_sandbox = [''srv'', ''sandbox'']"

definition example_zip_path :: path where
  "example_zip_path = [''srv'', ''sandbox'', ''a.zip'']"

definition fs_with_zip :: "blob \<Rightarrow> blob fs" where
  "fs_with_zip b = (\<lambda>p. None)(example_zip_path \<mapsto> File b)"

definition slip_archive :: "nat \<Rightarrow> nat \<Rightarrow> blob" where
  "slip_archive csize usize =
     Blob 300 (Some [(\<lparr> filename = ''../../outside.txt'', compress_size = csize, file_size = usize \<rparr>,
                      Blob usize None)])"




text \<open>
  A chain of nested archives: \<open>chain d\<close> is an archive that holds one archive, that holds
  one archive, and so on \<open>d\<close> times, the innermost holding one plain file; it consists of
  \<open>d + 1\<close> archives. All declared sizes are truthful and within the default limits.
  \<open>tidy\<close> describes the file systems on which extracting a chain meets no operating-system
  error: directories carry the names of \<open>chain_names\<close> only and regular files do not end
  in one of them.
\<close>

definition chain_names :: "string set" where
  "chain_names = {''srv'', ''sandbox'', ''out'', ''n''}"

definition tidy :: "blob fs \<Rightarrow> bool" where
  "tidy fs = (\<forall>p. (fs p = Some Dir \<longrightarrow> set p \<subseteq> chain_names)
                \<and> (\<forall>b. fs p = Some (File b) \<longrightarrow> p \<noteq> [] \<and> last p \<notin> chain_names))"

fun chain :: "nat \<Rightarrow> blob" where
  "chain 0 = Blob 1000 (Some [(\<lparr> filename = ''f.txt'', compress_size = 900, file_size = 1000 \<rparr>,
                               Blob 1000 None)])"
| "chain (Suc d) = Blob 1000 (Some [(\<lparr> filename = ''n.zip'', compress_size = 900, file_size = 1000 \<rparr>,
                                     chain d)])"

section \<open>Properties of metadata validation\<close>





section \<open>Properties of the path resolver\<close>


lemma split_sep_not_Nil: "split_sep s \<noteq> []"
  by (induction s) (auto split: list.splits)

lemma split_sep_no_sep: "c \<in> set (split_sep s) \<Longrightarrow> CHR ''/'' \<notin> set c"
proof (induction s arbitrary: c)
  case Nil
  then show ?case by simp
next
  case (Cons a s)
  show ?case
  proof (cases "a = CHR ''/''")
    case True
    with Cons show ?thesis by auto
  next
    case False
    obtain w ws where sp: "split_sep s = w # ws"
      using split_sep_not_Nil[of s] by (cases "split_sep s") auto
    with False Cons.prems have "c = a # w \<or> c \<in> set ws" by auto
    then show ?thesis
    proof
      assume "c = a # w"
      moreover have "CHR ''/'' \<notin> set w" using Cons.IH[of w] sp by simp
      ultimately show ?thesis using False by auto
    next
      assume "c \<in> set ws"
      then show ?thesis using Cons.IH[of c] sp by simp
    qed
  qed
qed

lemma split_sep_plain: "CHR ''/'' \<notin> set x \<Longrightarrow> split_sep x = [x]"
  by (induction x) auto

lemma split_sep_append: "CHR ''/'' \<notin> set x \<Longrightarrow> split_sep (x @ CHR ''/'' # r) = x # split_sep r"
  by (induction x) auto

lemma split_join:
  "xs \<noteq> [] \<Longrightarrow> \<forall>x\<in>set xs. CHR ''/'' \<notin> set x \<Longrightarrow> split_sep (join_sep xs) = xs"
proof (induction xs rule: join_sep.induct)
  case 1
  then show ?case by simp
next
  case (2 x)
  then show ?case by (simp add: split_sep_plain)
next
  case (3 x y ys)
  then show ?case by (simp add: split_sep_append)
qed

lemma normpath_comps_plain:
  "''..'' \<notin> set cs \<Longrightarrow>
   normpath_comps i cs new = new @ filter (\<lambda>c. c \<noteq> [] \<and> c \<noteq> ''.'') cs"
  by (induction cs arbitrary: new) auto

lemma realpath_plain: "''..'' \<notin> set cs \<Longrightarrow> realpath_comps acc cs = acc @ cs"
  by (induction cs arbitrary: acc) auto

lemma realpath_append:
  "realpath_comps acc (xs @ ys) = realpath_comps (realpath_comps acc xs) ys"
  by (induction xs arbitrary: acc) auto


lemma canonical_no_dotdot: "canonical p \<Longrightarrow> ''..'' \<notin> set p"
  by (auto simp: canonical_def canonical_comp_def list_all_iff)



lemma resolve_secure_path_alt:
  "resolve_secure_path base rel =
     (if prefix (path_str (resolve base)) (path_str (resolve (joinpath base (normalized_rel rel))))
      then Inr (resolve (joinpath base (normalized_rel rel))) else Inl PermissionError)"
  by (simp add: resolve_secure_path_def normalized_rel_def Let_def)

lemma normpath_comps_clean:
  "list_all clean new \<Longrightarrow> \<forall>c\<in>set cs. CHR ''/'' \<notin> set c \<Longrightarrow>
   list_all clean (normpath_comps i cs new)"
proof (induction cs arbitrary: new)
  case Nil
  then show ?case by simp
next
  case (Cons a cs)
  have bl: "list_all clean (butlast new)"
    using Cons.prems(1) by (auto simp: list_all_iff dest: in_set_butlastD)
  have ap: "a \<noteq> [] \<Longrightarrow> a \<noteq> ''.'' \<Longrightarrow> list_all clean (new @ [a])"
    using Cons.prems by (auto simp: list_all_iff clean_def)
  from Cons.prems(2) have rest: "\<forall>c\<in>set cs. CHR ''/'' \<notin> set c" by simp
  show ?case
    using Cons.IH[OF Cons.prems(1) rest] Cons.IH[OF bl rest] Cons.IH[OF ap rest]
    by auto
qed

lemma join_sep_clean_hd:
  "list_all clean p \<Longrightarrow> p \<noteq> [] \<Longrightarrow> \<exists>c cs. join_sep p = c # cs \<and> c \<noteq> CHR ''/''"
proof (induction p rule: join_sep.induct)
  case 1 then show ?case by simp
next
  case (2 x)
  then show ?case by (cases x) (auto simp: clean_def)
next
  case (3 x y ys)
  then show ?case by (cases x) (auto simp: clean_def)
qed

lemma pure_parts_join_clean: "list_all clean p \<Longrightarrow> pure_parts (join_sep p) = p"
proof (cases "p = []")
  case True
  then show ?thesis by (simp add: pure_parts_def)
next
  case False
  assume c: "list_all clean p"
  then have "split_sep (join_sep p) = p"
    using False by (intro split_join) (auto simp: clean_def list_all_iff)
  moreover have "filter (\<lambda>c. c \<noteq> [] \<and> c \<noteq> ''.'') p = p"
    using c by (auto simp: clean_def list_all_iff intro: filter_True)
  ultimately show ?thesis by (simp add: pure_parts_def)
qed

lemma lstrip_slashes_join:
  assumes "list_all clean p"
  shows "lstrip_sep (replicate i (CHR ''/'') @ join_sep p) = join_sep p"
proof (cases "p = []")
  case True
  then show ?thesis by (simp add: lstrip_sep_def dropWhile_append)
next
  case False
  from join_sep_clean_hd[OF assms False] obtain c cs
    where j: "join_sep p = c # cs" "c \<noteq> CHR ''/''" by blast
  then show ?thesis by (simp add: lstrip_sep_def dropWhile_append)
qed

lemma norm_comps_clean: "list_all clean (norm_comps rel)"
  unfolding norm_comps_def
  by (rule normpath_comps_clean) (auto dest: split_sep_no_sep)

lemma normpath_unfold:
  "rel \<noteq> [] \<Longrightarrow> normpath rel =
     (let q = replicate (initial_slashes rel) (CHR ''/'') @ join_sep (norm_comps rel)
      in if q = [] then ''.'' else q)"
  by (simp add: normpath_def norm_comps_def Let_def)

lemma normalized_rel_parts:
  "pure_parts (normalized_rel rel) = norm_comps rel \<and> take 1 (normalized_rel rel) \<noteq> ''/''"
proof (cases "rel = []")
  case True
  then show ?thesis
    by (simp add: normalized_rel_def normpath_def pure_parts_def norm_comps_def
        initial_slashes_def)
next
  case False
  let ?C = "norm_comps rel"
  let ?i = "initial_slashes rel"
  have cl: "list_all clean ?C" by (rule norm_comps_clean)
  show ?thesis
  proof (cases "?i = 0")
    case i0: True
    show ?thesis
    proof (cases "?C = []")
      case True
      with i0 False have "normpath rel = ''.''" by (simp add: normpath_unfold)
      then show ?thesis using True by (simp add: normalized_rel_def pure_parts_def)
    next
      case ne: False
      from join_sep_clean_hd[OF cl ne] obtain c cs
        where j: "join_sep ?C = c # cs" "c \<noteq> CHR ''/''" by blast
      with i0 False have np: "normpath rel = join_sep ?C" by (simp add: normpath_unfold)
      have "normalized_rel rel = join_sep ?C"
        using j by (simp add: normalized_rel_def np)
      then show ?thesis using j pure_parts_join_clean[OF cl] by simp
    qed
  next
    case ipos: False
    then obtain m where m: "?i = Suc m" by (cases ?i) auto
    have np: "normpath rel = replicate ?i (CHR ''/'') @ join_sep ?C"
      using False m by (simp add: normpath_unfold)
    have "normalized_rel rel = lstrip_sep (replicate ?i (CHR ''/'') @ join_sep ?C)"
      using m by (simp add: normalized_rel_def np)
    then have nr: "normalized_rel rel = join_sep ?C"
      by (simp add: lstrip_slashes_join[OF cl])
    show ?thesis
    proof (cases "?C = []")
      case True
      then show ?thesis using nr by (simp add: pure_parts_def)
    next
      case ne: False
      from join_sep_clean_hd[OF cl ne] obtain c cs
        where j: "join_sep ?C = c # cs" "c \<noteq> CHR ''/''" by blast
      then show ?thesis using nr pure_parts_join_clean[OF cl] by simp
    qed
  qed
qed

lemma resolve_secure_path_comps:
  "resolve_secure_path base rel =
     (if prefix (path_str (resolve base)) (path_str (resolve (base @ norm_comps rel)))
      then Inr (resolve (base @ norm_comps rel)) else Inl PermissionError)"
  using normalized_rel_parts[of rel]
  by (simp add: resolve_secure_path_alt joinpath_def)



lemma canonical_clean: "canonical p \<Longrightarrow> list_all clean p"
  by (auto simp: canonical_def canonical_comp_def clean_def list_all_iff)

lemma canonical_filter: "canonical p \<Longrightarrow> filter (\<lambda>c. c \<noteq> [] \<and> c \<noteq> ''.'') p = p"
  by (auto simp: canonical_def canonical_comp_def list_all_iff intro: filter_True)

lemma slash_concat: "q \<noteq> [] \<Longrightarrow> concat (map (\<lambda>c. CHR ''/'' # c) q) = CHR ''/'' # join_sep q"
  by (induction q rule: join_sep.induct) auto

lemma realpath_canonical:
  "canonical acc \<Longrightarrow> list_all clean cs \<Longrightarrow> canonical (realpath_comps acc cs)"
proof (induction cs arbitrary: acc)
  case Nil
  then show ?case by simp
next
  case (Cons a cs)
  have bl: "canonical (butlast acc)"
    using Cons.prems(1) by (auto simp: canonical_def list_all_iff dest: in_set_butlastD)
  have ap: "a \<noteq> ''..'' \<Longrightarrow> canonical (acc @ [a])"
    using Cons.prems by (auto simp: canonical_def canonical_comp_def clean_def)
  from Cons.prems(2) have rest: "list_all clean cs" by simp
  show ?case using Cons.IH[OF bl rest] Cons.IH[OF ap rest] by auto
qed

lemma resolve_canonical_base:
  "canonical base \<Longrightarrow> resolve (base @ cs) = realpath_comps base cs"
  by (simp add: resolve_def realpath_append realpath_plain canonical_no_dotdot)

lemma resolve_canonical_id: "canonical p \<Longrightarrow> resolve p = p"
  using resolve_canonical_base[of p "[]"] by simp

lemma path_str_append_prefix: "prefix (path_str b) (path_str (b @ q))"
proof (cases "b = []")
  case True
  then show ?thesis by (cases q) (auto simp: path_str_def)
next
  case False
  then show ?thesis by (simp add: path_str_def)
qed

lemma resolve_secure_path_canonical_result:
  assumes "canonical base" and "resolve_secure_path base rel = Inr q"
  shows "canonical q"
proof -
  from assms(2) have "q = resolve (base @ norm_comps rel)"
    by (simp add: resolve_secure_path_comps split: if_splits)
  then show ?thesis
    using realpath_canonical[OF assms(1) norm_comps_clean[of rel]]
    by (simp add: resolve_canonical_base[OF assms(1)])
qed

lemma resolve_secure_path_plain_comps:
  assumes "canonical base" and "canonical cs" and "norm_comps rel = cs"
  shows "resolve_secure_path base rel = Inr (base @ cs)"
proof -
  have "resolve (base @ cs) = base @ cs"
    using assms by (simp add: resolve_canonical_base realpath_plain canonical_no_dotdot)
  then show ?thesis
    using assms(3) path_str_append_prefix[of base cs]
    by (simp add: resolve_secure_path_comps resolve_canonical_id[OF assms(1)])
qed

lemma norm_comps_path_str: "canonical q \<Longrightarrow> norm_comps (path_str q) = q"
proof (cases "q = []")
  case True
  then show ?thesis by (simp add: norm_comps_def path_str_def initial_slashes_def)
next
  case False
  assume c: "canonical q"
  from join_sep_clean_hd[OF canonical_clean[OF c] False] obtain x xs
    where j: "join_sep q = x # xs" "x \<noteq> CHR ''/''" by blast
  have ps: "path_str q = CHR ''/'' # join_sep q" using False by (simp add: path_str_def slash_concat)
  have i: "initial_slashes (path_str q) = 1" using j by (simp add: ps initial_slashes_def)
  have "split_sep (join_sep q) = q"
    using c False by (intro split_join) (auto simp: canonical_def canonical_comp_def list_all_iff)
  then have sp: "split_sep (path_str q) = [] # q" by (simp add: ps)
  show ?thesis
    using c by (simp add: norm_comps_def i sp normpath_comps_plain canonical_no_dotdot canonical_filter)
qed

lemma norm_comps_join_sep: "canonical q \<Longrightarrow> norm_comps (join_sep q) = q"
proof (cases "q = []")
  case True
  then show ?thesis by (simp add: norm_comps_def initial_slashes_def)
next
  case False
  assume c: "canonical q"
  from join_sep_clean_hd[OF canonical_clean[OF c] False] obtain x xs
    where j: "join_sep q = x # xs" "x \<noteq> CHR ''/''" by blast
  have i: "initial_slashes (join_sep q) = 0" using j by (simp add: initial_slashes_def)
  have sp: "split_sep (join_sep q) = q"
    using c False by (intro split_join) (auto simp: canonical_def canonical_comp_def list_all_iff)
  show ?thesis
    using c by (simp add: norm_comps_def i sp normpath_comps_plain canonical_no_dotdot canonical_filter)
qed

lemma canonical_append: "canonical (a @ b) \<longleftrightarrow> canonical a \<and> canonical b"
  by (simp add: canonical_def)

text \<open>
  C3, as amended. When \<open>resolve_secure_path\<close> accepts an input and returns the canonical
  path \<open>q\<close>, resolving the string form of \<open>q\<close> again is accepted and returns \<open>q\<close>'s
  components appended below the sandbox root (the leading separator is stripped, so the
  absolute string is read as sandbox-relative); resolving \<open>q\<close> written relative to the
  sandbox root returns \<open>q\<close> itself.
\<close>

theorem reresolve_nests_below_sandbox:
  assumes "canonical sandbox" and "resolve_secure_path sandbox p = Inr q"
  shows "resolve_secure_path sandbox (path_str q) = Inr (sandbox @ q)
       \<and> (q = sandbox @ rest \<longrightarrow> resolve_secure_path sandbox (join_sep rest) = Inr q)"
proof -
  have cq: "canonical q" by (rule resolve_secure_path_canonical_result[OF assms])
  have one: "resolve_secure_path sandbox (path_str q) = Inr (sandbox @ q)"
    by (rule resolve_secure_path_plain_comps[OF assms(1) cq norm_comps_path_str[OF cq]])
  have two: "resolve_secure_path sandbox (join_sep rest) = Inr q" if "q = sandbox @ rest"
  proof -
    from cq that have cr: "canonical rest" by (simp add: canonical_append)
    show ?thesis
      using resolve_secure_path_plain_comps[OF assms(1) cr norm_comps_join_sep[OF cr]] that
      by simp
  qed
  from one two show ?thesis by blast
qed

theorem reresolve_nests_below_sandbox_witness:
  "canonical [''srv'', ''sandbox'']
   \<and> resolve_secure_path [''srv'', ''sandbox''] ''a/./b'' = Inr [''srv'', ''sandbox'', ''a'', ''b'']
   \<and> resolve_secure_path [''srv'', ''sandbox''] (path_str [''srv'', ''sandbox'', ''a'', ''b''])
       = Inr [''srv'', ''sandbox'', ''srv'', ''sandbox'', ''a'', ''b'']
   \<and> resolve_secure_path [''srv'', ''sandbox''] (join_sep [''a'', ''b''])
       = Inr [''srv'', ''sandbox'', ''a'', ''b'']"
proof -
  have c: "canonical [''srv'', ''sandbox'']" by (simp add: canonical_def canonical_comp_def)
  have r: "resolve_secure_path [''srv'', ''sandbox''] ''a/./b'' = Inr [''srv'', ''sandbox'', ''a'', ''b'']"
    by (simp add: resolve_secure_path_comps norm_comps_def initial_slashes_def resolve_def path_str_def)
  from reresolve_nests_below_sandbox[OF c r, where rest = "[''a'', ''b'']"] c r show ?thesis by simp
qed

text \<open>
  C3 as stated fails: under the sandbox root \<open>/srv/sandbox\<close> the input \<open>a\<close> resolves to
  \<open>/srv/sandbox/a\<close>, and resolving that string again gives \<open>/srv/sandbox/srv/sandbox/a\<close>.
\<close>

theorem reresolve_not_idempotent_counterexample:
  "resolve_secure_path [''srv'', ''sandbox''] ''a'' = Inr [''srv'', ''sandbox'', ''a'']
   \<and> resolve_secure_path [''srv'', ''sandbox''] (path_str [''srv'', ''sandbox'', ''a''])
       = Inr [''srv'', ''sandbox'', ''srv'', ''sandbox'', ''a'']
   \<and> resolve_secure_path [''srv'', ''sandbox''] (path_str [''srv'', ''sandbox'', ''a''])
       \<noteq> resolve_secure_path [''srv'', ''sandbox''] ''a''"
  by (simp add: resolve_secure_path_comps norm_comps_def initial_slashes_def resolve_def path_str_def)








text \<open>
  C1 fails on the code. The containment test of \<open>resolve_secure_path\<close> is a plain string
  prefix test, so a sibling directory whose name begins with the sandbox root's name passes
  it: under the sandbox root \<open>/srv/sandbox\<close> the input \<open>../sandbox_evil/x\<close> is accepted
  and the returned path \<open>/srv/sandbox_evil/x\<close> is outside the sandbox.
\<close>

theorem resolve_returns_sibling_of_sandbox:
  "resolve_secure_path [''srv'', ''sandbox''] ''../sandbox_evil/x''
     = Inr [''srv'', ''sandbox_evil'', ''x'']
   \<and> \<not> spec_inside_sandbox [''srv'', ''sandbox''] [''srv'', ''sandbox_evil'', ''x'']
   \<and> \<not> prefix [''srv'', ''sandbox''] [''srv'', ''sandbox_evil'', ''x'']"
  by (simp add: resolve_secure_path_comps norm_comps_def initial_slashes_def resolve_def
      path_str_def spec_inside_sandbox_def)

section \<open>Properties of the atomic write\<close>







section \<open>Properties of the lock manager\<close>


lemma pure_parts_clean: "list_all clean (pure_parts s)"
  by (auto simp: pure_parts_def list_all_iff clean_def dest: split_sep_no_sep)

lemma pure_parts_path_str: "canonical q \<Longrightarrow> pure_parts (path_str q) = q"
proof (cases "q = []")
  case True
  then show ?thesis by (simp add: path_str_def pure_parts_def)
next
  case False
  assume c: "canonical q"
  have ps: "path_str q = CHR ''/'' # join_sep q" using False by (simp add: path_str_def slash_concat)
  have "split_sep (join_sep q) = q"
    using c False by (intro split_join) (auto simp: canonical_def canonical_comp_def list_all_iff)
  then show ?thesis using c by (simp add: ps pure_parts_def canonical_filter)
qed

lemma path_str_absolute: "take 1 (path_str q) = ''/''"
  by (cases q) (auto simp: path_str_def)

lemma joinpath_absolute: "take 1 s = ''/'' \<Longrightarrow> joinpath cwd s = pure_parts s"
  by (simp add: joinpath_def)

lemma joinpath_canonical_resolve:
  assumes "canonical cwd"
  shows "canonical (resolve (joinpath cwd p))"
proof -
  have "list_all clean (joinpath cwd p)"
    using canonical_clean[OF assms] pure_parts_clean[of p] by (simp add: joinpath_def)
  moreover have "canonical []" by (simp add: canonical_def)
  ultimately show ?thesis unfolding resolve_def by (intro realpath_canonical)
qed

lemma get_lock_key_idem:
  assumes "canonical cwd"
  shows "get_lock_key cwd (get_lock_key cwd p) = get_lock_key cwd p"
proof -
  let ?q = "resolve (joinpath cwd p)"
  have c: "canonical ?q" by (rule joinpath_canonical_resolve[OF assms])
  have "joinpath cwd (path_str ?q) = pure_parts (path_str ?q)"
    by (rule joinpath_absolute[OF path_str_absolute])
  then have "joinpath cwd (path_str ?q) = ?q"
    by (simp only: pure_parts_path_str[OF c])
  then show ?thesis by (simp add: get_lock_key_def resolve_canonical_id[OF c])
qed

lemma release_each_held:
  assumes "distinct ls" and "\<forall>k\<in>set ls. is_locked m k"
  shows "\<exists>m'. release_each m ls = (m', Inr ())
           \<and> trace m' = trace m @ map Release ls
           \<and> (\<forall>k. is_locked m' k = (is_locked m k \<and> k \<notin> set ls))"
  using assms
proof (induction ls arbitrary: m)
  case Nil
  then show ?case by simp
next
  case (Cons l ls)
  let ?m1 = "m\<lparr> locks := (locks m)(l \<mapsto> False), trace := trace m @ [Release l] \<rparr>"
  have r: "release m l = (?m1, Inr ())"
    using Cons.prems by (simp add: release_def is_locked_def)
  have d: "distinct ls" using Cons.prems by simp
  have h: "\<forall>k\<in>set ls. is_locked ?m1 k" using Cons.prems by (auto simp: is_locked_def)
  from Cons.IH[OF d h] obtain m' where
    m': "release_each ?m1 ls = (m', Inr ())" "trace m' = trace ?m1 @ map Release ls"
        "\<forall>k. is_locked m' k = (is_locked ?m1 k \<and> k \<notin> set ls)" by blast
  have "release_each m (l # ls) = (m', Inr ())" using r m'(1) by simp
  moreover have "trace m' = trace m @ map Release (l # ls)" using m'(2) by simp
  moreover have "\<forall>k. is_locked m' k = (is_locked m k \<and> k \<notin> set (l # ls))"
    using m'(3) by (auto simp: is_locked_def)
  ultimately show ?case by blast
qed

lemma acquire_sorted_inv:
  assumes "\<forall>k\<in>set keys. get_lock_key cwd k = k"
    and "distinct held" and "\<forall>k\<in>set held. is_locked m k"
    and "acquire_sorted cwd m keys held = (m', held', r)"
  shows "\<exists>acq. held' = held @ acq \<and> prefix acq keys
           \<and> trace m' = trace m @ map Acquire acq
           \<and> distinct held' \<and> (\<forall>k\<in>set held'. is_locked m' k)
           \<and> (\<forall>k\<in>set acq. \<not> is_locked m k)
           \<and> (\<forall>k. k \<notin> set acq \<longrightarrow> is_locked m' k = is_locked m k)
           \<and> (acq = keys \<longrightarrow> r = Inr ()) \<and> (acq \<noteq> keys \<longrightarrow> r = Inl TimeoutError)"
  using assms
proof (induction keys arbitrary: m held)
  case Nil
  then show ?case by auto
next
  case (Cons key rest)
  have kk: "get_lock_key cwd key = key" using Cons.prems(1) by simp
  obtain m1 where g: "get_lock cwd m key = (m1, key)"
      and m1: "\<forall>k. is_locked m1 k = is_locked m k" "trace m1 = trace m"
    by (auto simp: get_lock_def kk Let_def is_locked_def)
  show ?case
  proof (cases "is_locked m key")
    case True
    then have "wait_for_acquire m1 key = (m1, Inl TimeoutError)"
      using m1 by (simp add: wait_for_acquire_def is_locked_def)
    with g Cons.prems(4) have "m' = m1" "held' = held" "r = Inl TimeoutError" by auto
    with Cons.prems(2,3) m1 show ?thesis by (intro exI[of _ "[]"]) auto
  next
    case False
    let ?m2 = "m1\<lparr> locks := (locks m1)(key \<mapsto> True), trace := trace m1 @ [Acquire key] \<rparr>"
    have w: "wait_for_acquire m1 key = (?m2, Inr True)"
      using False m1 by (simp add: wait_for_acquire_def is_locked_def)
    with g Cons.prems(4) have rec: "acquire_sorted cwd ?m2 rest (held @ [key]) = (m', held', r)"
      by simp
    have nk: "key \<notin> set held" using False Cons.prems(3) by auto
    have d: "distinct (held @ [key])" using Cons.prems(2) nk by simp
    have l: "\<forall>k\<in>set (held @ [key]). is_locked ?m2 k"
      using Cons.prems(3) m1 by (auto simp: is_locked_def)
    have ks: "\<forall>k\<in>set rest. get_lock_key cwd k = k" using Cons.prems(1) by simp
    from Cons.IH[OF ks d l rec] obtain acq where
      a: "held' = (held @ [key]) @ acq" "prefix acq rest"
         "trace m' = trace ?m2 @ map Acquire acq"
         "distinct held'" "\<forall>k\<in>set held'. is_locked m' k"
         "\<forall>k\<in>set acq. \<not> is_locked ?m2 k"
         "\<forall>k. k \<notin> set acq \<longrightarrow> is_locked m' k = is_locked ?m2 k"
         "acq = rest \<longrightarrow> r = Inr ()" "acq \<noteq> rest \<longrightarrow> r = Inl TimeoutError"
      by blast
    have m2: "\<And>k. k \<noteq> key \<Longrightarrow> is_locked ?m2 k = is_locked m k" "is_locked ?m2 key"
      using m1 by (auto simp: is_locked_def)
    have "held' = held @ (key # acq)" using a(1) by simp
    moreover have "prefix (key # acq) (key # rest)" using a(2) by simp
    moreover have "trace m' = trace m @ map Acquire (key # acq)" using a(3) m1 by simp
    moreover have "\<forall>k\<in>set (key # acq). \<not> is_locked m k"
      using a(6) m2 False by (metis set_ConsD)
    moreover have "\<forall>k. k \<notin> set (key # acq) \<longrightarrow> is_locked m' k = is_locked m k"
      using a(7) m2 by simp
    moreover have "key # acq = key # rest \<longrightarrow> r = Inr ()" using a(8) by simp
    moreover have "key # acq \<noteq> key # rest \<longrightarrow> r = Inl TimeoutError" using a(9) by simp
    ultimately show ?thesis using a(4,5) by blast
  qed
qed

text \<open>
  C10. \<open>execute_locked_multi\<close> acquires locks along the sorted list of canonical keys: the
  locks it comes to hold are a prefix of that list, in ascending order. Whatever happens
  (all acquired and the operation run, successfully or not, or an acquisition timed out),
  the held locks are released in reverse acquisition order before the call returns, every
  lock is taken afterwards exactly if it was taken before the call, and a timed-out
  acquisition makes the call fail with \<open>TimeoutError\<close>.
\<close>

theorem execute_locked_multi_releases_all:
  assumes cw: "canonical cwd"
    and ex: "execute_locked_multi cwd m paths operation = (m', r)"
  shows "\<exists>held. prefix held (sort (map (get_lock_key cwd) paths)) \<and> sorted held
           \<and> trace m' = trace m @ map Acquire held @ map Release (rev held)
           \<and> (\<forall>k. (locks m' k = Some True) = (locks m k = Some True))
           \<and> (held = sort (map (get_lock_key cwd) paths) \<longrightarrow> r = operation)
           \<and> (held \<noteq> sort (map (get_lock_key cwd) paths) \<longrightarrow> r = Inl TimeoutError)"
proof -
  let ?keys = "sort (map (get_lock_key cwd) paths)"
  obtain m1 held r1 where acq: "acquire_sorted cwd m ?keys [] = (m1, held, r1)"
    by (metis prod_cases3)
  have ks: "\<forall>k\<in>set ?keys. get_lock_key cwd k = k"
    using get_lock_key_idem[OF cw] by auto
  from acquire_sorted_inv[OF ks _ _ acq]
  have inv: "prefix held ?keys" "trace m1 = trace m @ map Acquire held"
      "distinct held" "\<forall>k\<in>set held. is_locked m1 k" "\<forall>k\<in>set held. \<not> is_locked m k"
      "\<forall>k. k \<notin> set held \<longrightarrow> is_locked m1 k = is_locked m k"
      "held = ?keys \<longrightarrow> r1 = Inr ()" "held \<noteq> ?keys \<longrightarrow> r1 = Inl TimeoutError"
    by auto
  from release_each_held[of "rev held" m1] inv(3,4) obtain m2 where
    rel: "release_each m1 (rev held) = (m2, Inr ())"
         "trace m2 = trace m1 @ map Release (rev held)"
         "\<forall>k. is_locked m2 k = (is_locked m1 k \<and> k \<notin> set (rev held))"
    by auto
  from ex acq rel(1) have res: "m' = m2"
      "r = (case r1 of Inl e \<Rightarrow> Inl e | Inr _ \<Rightarrow> operation)"
    by (simp_all add: execute_locked_multi_def Let_def)
  have "sorted held"
  proof -
    from inv(1) obtain zs where "?keys = held @ zs" by (auto simp: prefix_def)
    then have "sorted (held @ zs)" using sorted_sort[of "map (get_lock_key cwd) paths"] by simp
    then show ?thesis by (simp add: sorted_append)
  qed
  moreover have "trace m' = trace m @ map Acquire held @ map Release (rev held)"
    using res(1) rel(2) inv(2) by simp
  moreover have "\<forall>k. (locks m' k = Some True) = (locks m k = Some True)"
    using res(1) rel(3) inv(5,6) unfolding is_locked_def by (metis set_rev)
  moreover have "held = ?keys \<longrightarrow> r = operation" using res(2) inv(7) by simp
  moreover have "held \<noteq> ?keys \<longrightarrow> r = Inl TimeoutError" using res(2) inv(8) by auto
  ultimately show ?thesis using inv(1) by blast
qed

theorem execute_locked_multi_releases_all_witness:
  "canonical [''w'']
   \<and> (\<exists>held. prefix held (sort (map (get_lock_key [''w'']) [''c'', ''b'', ''a'']))
        \<and> sorted held
        \<and> trace (fst (execute_locked_multi [''w''] example_locks [''c'', ''b'', ''a''] (Inr (1::nat))))
            = trace example_locks @ map Acquire held @ map Release (rev held)
        \<and> (\<forall>k. (locks (fst (execute_locked_multi [''w''] example_locks [''c'', ''b'', ''a''] (Inr (1::nat)))) k = Some True)
                = (locks example_locks k = Some True)))
   \<and> snd (execute_locked_multi [''w''] example_locks [''c'', ''b'', ''a''] (Inr (1::nat))) = Inl TimeoutError
   \<and> trace (fst (execute_locked_multi [''w''] example_locks [''c'', ''b'', ''a''] (Inr (1::nat))))
       = [Acquire ''/w/a'', Acquire ''/w/b'', Release ''/w/b'', Release ''/w/a'']"
proof -
  let ?x = "execute_locked_multi [''w''] example_locks [''c'', ''b'', ''a''] (Inr (1::nat))"
  have c: "canonical [''w'']" by (simp add: canonical_def canonical_comp_def)
  have p: "?x = (fst ?x, snd ?x)" by simp
  have keys: "map (get_lock_key [''w'']) [''c'', ''b'', ''a''] = [''/w/c'', ''/w/b'', ''/w/a'']"
    by (simp add: get_lock_key_def joinpath_def pure_parts_def resolve_def path_str_def)
  have srt: "sort [''/w/c'', ''/w/b'', ''/w/a''] = [''/w/a'', ''/w/b'', ''/w/c'']"
    by (simp add: less_eq_char_def less_char_def)
  have ev: "?x = (\<lparr> locks = (\<lambda>k. None)(''/w/b'' \<mapsto> False, ''/w/c'' \<mapsto> True, ''/w/a'' \<mapsto> False),
                     trace = [Acquire ''/w/a'', Acquire ''/w/b'', Release ''/w/b'', Release ''/w/a''] \<rparr>,
                  Inl TimeoutError)"
    unfolding execute_locked_multi_def keys srt
    by (simp add: example_locks_def get_lock_def get_lock_key_def joinpath_def pure_parts_def
        resolve_def path_str_def wait_for_acquire_def release_def Let_def fun_upd_twist)
  from execute_locked_multi_releases_all[OF c p]
  have ex: "\<exists>held. prefix held (sort (map (get_lock_key [''w'']) [''c'', ''b'', ''a'']))
        \<and> sorted held
        \<and> trace (fst ?x) = trace example_locks @ map Acquire held @ map Release (rev held)
        \<and> (\<forall>k. (locks (fst ?x) k = Some True) = (locks example_locks k = Some True))"
    by blast
  have e1: "snd ?x = Inl TimeoutError" by (simp only: ev snd_conv)
  have e2: "trace (fst ?x) = [Acquire ''/w/a'', Acquire ''/w/b'', Release ''/w/b'', Release ''/w/a'']"
    by (simp only: ev fst_conv lock_manager.simps)
  from c ex e1 e2 show ?thesis by (intro conjI)
qed

section \<open>Properties of archive creation\<close>

text \<open>
  Sources that are regular files are counted but never compared with either ceiling: the
  two comparisons stand inside the directory walk only.
\<close>

lemma check_sources_files_only:
  assumes "\<forall>s\<in>set sources. \<exists>p. resolve_secure_path sandbox s = Inr p \<and> is_file (map_of files) p"
  shows "\<exists>t. check_sources cfg sandbox files sources (tot, n) = Inr (t, n + length sources)"
  using assms
proof (induction sources arbitrary: tot n)
  case Nil
  then show ?case by simp
next
  case (Cons s rest)
  then obtain p where p: "resolve_secure_path sandbox s = Inr p" "is_file (map_of files) p" by auto
  from Cons.prems have r: "\<forall>s\<in>set rest. \<exists>p. resolve_secure_path sandbox s = Inr p \<and> is_file (map_of files) p"
    by simp
  from Cons.IH[OF r, of "tot + st_size files p" "n + 1"] p show ?case by simp
qed

text \<open>
  C6 fails on the code. With a file-count ceiling of 2 and a size ceiling of 10 bytes, three
  regular files of 5 bytes each given as separate sources pass the pre-flight accounting
  (3 files, 15 bytes) and the archive is written, whereas the same three files inside one
  directory source are rejected.
\<close>

theorem file_sources_bypass_caps:
  "check_sources small_config [''s''] example_listing [''a'', ''b'', ''c''] (0, 0) = Inr (15, 3)
   \<and> snd (safe_create_zip small_config [''s''] example_writer example_listing
            [''a'', ''b'', ''c''] ''out.zip'') = Inr [''s'', ''out.zip'']
   \<and> snd (safe_create_zip small_config [''s''] example_writer example_listing
            [''d''] ''out.zip'') = Inl (ArchiveSecurityError CreateTooManyFiles)"
  by code_simp

section \<open>Properties of archive extraction\<close>

declare copy_chunks.simps [simp del]

lemma copy_chunks_ok:
  "int (t + remaining) \<le> cap \<Longrightarrow> copy_chunks cap remaining t w = (w + remaining, Inr ())"
proof (induction cap remaining t w rule: copy_chunks.induct)
  case (1 cap remaining total_size written)
  show ?case
  proof (cases "min 8192 remaining = 0")
    case True
    then show ?thesis by (subst copy_chunks.simps) (simp add: Let_def)
  next
    case False
    let ?c = "min 8192 remaining"
    have le: "\<not> int (total_size + ?c) > cap" using 1(2) by simp
    have "int (total_size + ?c + (remaining - ?c)) \<le> cap" using 1(2) by simp
    from 1(1)[OF refl False refl le this]
    have "copy_chunks cap (remaining - ?c) (total_size + ?c) (written + ?c)
            = (written + ?c + (remaining - ?c), Inr ())" .
    then show ?thesis using False le by (subst copy_chunks.simps) (simp add: Let_def)
  qed
qed


lemma write_stream_within_cap:
  assumes "\<not> is_dir fs target" and "int (blob_len src) \<le> zip_max_total_size cfg"
  shows "write_stream cfg fs target src = (fs(target \<mapsto> File src), Inr ())"
  using assms copy_chunks_ok[of 0 "blob_len src" "zip_max_total_size cfg" 0]
  by (simp add: write_stream_def)






declare safe_extract_zip.simps [simp del]
declare extract_entries.simps [simp del]

lemma extract_entries_bad_name:
  "bad_name entry \<Longrightarrow>
   extract_entries cfg sb entries dp depth (entry # rest) fs ex
     = (fs, Inl (ArchiveSecurityError ZipSlip))"
  by (simp add: extract_entries.simps bad_name_def)

lemma extract_entries_tail:
  assumes "extract_entries cfg sb entries dp depth (entry # rest) fs ex = (fs', Inr r)"
  shows "\<exists>fs1 ex1. extract_entries cfg sb entries dp depth rest fs1 ex1 = (fs', Inr r)"
  using assms
  by (auto simp: extract_entries.simps Let_def
      split: if_splits sum.splits option.splits prod.splits bool.splits)

lemma extract_entries_never_succeeds:
  assumes "bad_name entry" and "entry \<in> set names"
  shows "\<exists>e. snd (extract_entries cfg sb entries dp depth names fs ex) = Inl e"
  using assms(2)
proof (induction names arbitrary: fs ex)
  case Nil
  then show ?case by simp
next
  case (Cons n rest)
  show ?case
  proof (cases "n = entry")
    case True
    then show ?thesis using extract_entries_bad_name[OF assms(1)] by simp
  next
    case False
    with Cons.prems have mem: "entry \<in> set rest" by simp
    obtain fs' res where R: "extract_entries cfg sb entries dp depth (n # rest) fs ex = (fs', res)"
      by (cases "extract_entries cfg sb entries dp depth (n # rest) fs ex") auto
    show ?thesis
    proof (cases res)
      case (Inl e)
      with R show ?thesis by simp
    next
      case (Inr r)
      with R extract_entries_tail obtain fs1 ex1
        where "extract_entries cfg sb entries dp depth rest fs1 ex1 = (fs', Inr r)" by blast
      with Cons.IH[OF mem, of fs1 ex1] show ?thesis by simp
    qed
  qed
qed

lemma safe_extract_zip_never_succeeds:
  assumes "bad_name entry" and "open_zip fs zip_path = Inr entries"
    and "entry \<in> set (map (\<lambda>e. filename (fst e)) entries)"
  shows "\<exists>e. snd (safe_extract_zip cfg sb fs zip_path destination max_depth) = Inl e"
  using assms(2) extract_entries_never_succeeds[OF assms(1) assms(3)]
  by (auto simp: safe_extract_zip.simps split: sum.splits)



text \<open>
  C4, as amended. An entry whose stored name is absolute or holds a parent-directory
  segment is refused by the extraction loop with the Zip-Slip \<open>ArchiveSecurityError\<close>
  before any directory or file is created for it: the file system is returned as the loop
  found it. No extraction of an archive that lists such a name succeeds. When the
  archive's declared metadata passes \<open>validate_zip_file\<close>, the depth budget is positive,
  the destination resolves and such an entry comes first, the call fails with the Zip-Slip
  error having created the destination directory only; declared sizes that break a limit
  are reported by the pre-validation instead, before any name is looked at.
\<close>

theorem zip_slip_entry_rejected:
  assumes "bad_name entry"
  shows "extract_entries cfg sb entries dp depth (entry # rest) fs ex
           = (fs, Inl (ArchiveSecurityError ZipSlip))
       \<and> (entry \<in> set names
            \<longrightarrow> (\<exists>e. snd (extract_entries cfg sb entries dp depth names fs ex) = Inl e))
       \<and> (open_zip fs zip_path = Inr entries \<and> entry \<in> set (map (\<lambda>e. filename (fst e)) entries)
            \<longrightarrow> (\<exists>e. snd (safe_extract_zip cfg sb fs zip_path destination depth) = Inl e))
       \<and> (0 < depth \<and> open_zip fs zip_path = Inr ((info, src) # others) \<and> filename info = entry
            \<and> validate_entries cfg (map fst ((info, src) # others))
                 \<lparr> file_count = 0, total_uncompressed = 0, total_compressed = 0 \<rparr> = Inr v
            \<and> resolve_secure_path sb destination = Inr dp \<and> mkdir_parents fs dp = Inr fs1
            \<longrightarrow> safe_extract_zip cfg sb fs zip_path destination depth
                  = (fs1, Inl (ArchiveSecurityError ZipSlip)))"
proof -
  have one: "extract_entries cfg sb entries dp depth (entry # rest) fs ex
           = (fs, Inl (ArchiveSecurityError ZipSlip))"
    by (rule extract_entries_bad_name[OF assms])
  have two: "\<exists>e. snd (extract_entries cfg sb entries dp depth names fs ex) = Inl e"
    if "entry \<in> set names"
    by (rule extract_entries_never_succeeds[OF assms that])
  have three: "\<exists>e. snd (safe_extract_zip cfg sb fs zip_path destination depth) = Inl e"
    if "open_zip fs zip_path = Inr entries" "entry \<in> set (map (\<lambda>e. filename (fst e)) entries)"
    by (rule safe_extract_zip_never_succeeds[OF assms that])
  have four: "safe_extract_zip cfg sb fs zip_path destination depth
                  = (fs1, Inl (ArchiveSecurityError ZipSlip))"
    if "0 < depth" "open_zip fs zip_path = Inr ((info, src) # others)" "filename info = entry"
       "validate_entries cfg (map fst ((info, src) # others))
                 \<lparr> file_count = 0, total_uncompressed = 0, total_compressed = 0 \<rparr> = Inr v"
       "resolve_secure_path sb destination = Inr dp" "mkdir_parents fs dp = Inr fs1"
    using that extract_entries_bad_name[OF assms]
    by (subst safe_extract_zip.simps) simp
  from one two three four show ?thesis by blast
qed

theorem zip_slip_entry_rejected_witness:
  "bad_name ''../../outside.txt''
   \<and> safe_extract_zip default_config example_sandbox (fs_with_zip (slip_archive 10 10))
        example_zip_path ''out'' 5
     = ((\<lambda>q. if prefix q [''srv'', ''sandbox'', ''out''] then Some Dir
              else fs_with_zip (slip_archive 10 10) q),
        Inl (ArchiveSecurityError ZipSlip))"
proof -
  have b: "bad_name ''../../outside.txt''" by (simp add: bad_name_def pure_parts_def)
  let ?fs = "fs_with_zip (slip_archive 10 10)"
  let ?i = "\<lparr> filename = ''../../outside.txt'', compress_size = 10, file_size = 10 \<rparr>"
  have oz: "open_zip ?fs example_zip_path = Inr ((?i, Blob 10 None) # [])"
    by (simp add: open_zip_def fs_with_zip_def slip_archive_def)
  have ve: "validate_entries default_config (map fst ((?i, Blob 10 None) # []))
              \<lparr> file_count = 0, total_uncompressed = 0, total_compressed = 0 \<rparr>
            = Inr \<lparr> file_count = 1, total_uncompressed = 10, total_compressed = 10 \<rparr>"
    by (simp add: default_config_def validate_zip_entry_def Let_def)
  have rs: "resolve_secure_path example_sandbox ''out'' = Inr [''srv'', ''sandbox'', ''out'']"
    by (simp add: example_sandbox_def resolve_secure_path_comps norm_comps_def initial_slashes_def
        resolve_def path_str_def)
  have md: "mkdir_parents ?fs [''srv'', ''sandbox'', ''out'']
              = Inr (\<lambda>q. if prefix q [''srv'', ''sandbox'', ''out''] then Some Dir else ?fs q)"
  proof -
    have "\<not> list_ex (is_file ?fs) (prefixes [''srv'', ''sandbox'', ''out''])"
      by (simp add: fs_with_zip_def example_zip_path_def is_file_def)
    then show ?thesis by (simp only: mkdir_parents_def if_False)
  qed
  have f: "filename ?i = ''../../outside.txt''" by simp
  from zip_slip_entry_rejected[OF b, where depth = 5 and fs = ?fs and zip_path = example_zip_path
      and info = ?i and src = "Blob 10 None" and others = "[]" and cfg = default_config
      and sb = example_sandbox and destination = "''out''"] oz ve rs md f b
  show ?thesis by simp
qed

text \<open>
  C4 as stated fails: for the single entry \<open>../../outside.txt\<close> with declared sizes
  100 and 100000 the call fails with the compression-ratio error of the pre-validation,
  which is a quota error, not a security violation.
\<close>

theorem slip_entry_ratio_error_counterexample:
  "bad_name ''../../outside.txt''
   \<and> snd (safe_extract_zip default_config example_sandbox (fs_with_zip (slip_archive 100 100000))
        example_zip_path ''out'' 5) = Inl (ArchiveSecurityError RatioTooHigh)
   \<and> \<not> is_security_violation (ArchiveSecurityError RatioTooHigh)"
  by (simp add: bad_name_def pure_parts_def safe_extract_zip.simps open_zip_def fs_with_zip_def
      slip_archive_def default_config_def validate_zip_entry_def Let_def)




section \<open>Properties of nested extraction\<close>

lemma chain_names_canonical: "set p \<subseteq> chain_names \<Longrightarrow> canonical p"
  by (auto simp: canonical_def list_all_iff chain_names_def canonical_comp_def)

lemma sandbox_names: "set example_sandbox \<subseteq> chain_names"
  by (simp add: example_sandbox_def chain_names_def)

lemma blob_len_chain: "blob_len (chain d) = 1000"
  by (cases d) simp_all

lemma tidy_mkdir:
  assumes "tidy fs" and "set dp \<subseteq> chain_names"
  shows "\<exists>fs1. mkdir_parents fs dp = Inr fs1 \<and> tidy fs1
           \<and> (\<forall>p b. fs p = Some (File b) \<longrightarrow> fs1 p = Some (File b))"
proof -
  have nf: "\<not> is_file fs q" if "prefix q dp" for q
  proof (cases "q = []")
    case True
    with assms(1) show ?thesis by (auto simp: tidy_def is_file_def split: option.splits node.splits)
  next
    case False
    from that obtain r where "dp = q @ r" by (auto simp: prefix_def)
    with False assms(2) have "last q \<in> chain_names" by auto
    with assms(1) False show ?thesis
      by (auto simp: tidy_def is_file_def split: option.splits node.splits)
  qed
  then have "\<not> list_ex (is_file fs) (prefixes dp)" by (auto simp: list_ex_iff)
  then have m: "mkdir_parents fs dp = Inr (\<lambda>q. if prefix q dp then Some Dir else fs q)"
    by (simp add: mkdir_parents_def)
  have t: "tidy (\<lambda>q. if prefix q dp then Some Dir else fs q)"
  proof -
    have d: "set p \<subseteq> chain_names"
      if "(if prefix p dp then Some Dir else fs p) = Some Dir" for p
    proof (cases "prefix p dp")
      case True
      then show ?thesis using assms(2) set_mono_prefix[of p dp] by blast
    next
      case False
      with that assms(1) show ?thesis by (simp add: tidy_def)
    qed
    have f: "p \<noteq> [] \<and> last p \<notin> chain_names"
      if "(if prefix p dp then Some Dir else fs p) = Some (File b)" for p b
    proof -
      from that have "fs p = Some (File b)" by (auto split: if_splits)
      then show ?thesis using assms(1) by (simp add: tidy_def)
    qed
    from d f show ?thesis unfolding tidy_def by blast
  qed
  have k: "\<forall>p b. fs p = Some (File b) \<longrightarrow> (if prefix p dp then Some Dir else fs p) = Some (File b)"
  proof (intro allI impI)
    fix p b assume f: "fs p = Some (File b)"
    then have "is_file fs p" by (simp add: is_file_def)
    with nf have "\<not> prefix p dp" by blast
    with f show "(if prefix p dp then Some Dir else fs p) = Some (File b)" by simp
  qed
  from m t k show ?thesis by blast
qed

lemma tidy_write:
  assumes "tidy fs" and "set dp \<subseteq> chain_names" and "nm \<notin> chain_names" and "blob_len src = 1000"
  shows "write_stream default_config fs (dp @ [nm]) src = (fs(dp @ [nm] \<mapsto> File src), Inr ())
       \<and> tidy (fs(dp @ [nm] \<mapsto> File src))"
proof -
  have nd: "\<not> is_dir fs (dp @ [nm])"
    using assms(1,3) by (auto simp: is_dir_def tidy_def)
  have "int (blob_len src) \<le> zip_max_total_size default_config"
    using assms(4) by (simp add: default_config_def)
  from write_stream_within_cap[OF nd this]
  have w: "write_stream default_config fs (dp @ [nm]) src = (fs(dp @ [nm] \<mapsto> File src), Inr ())" .
  have "tidy (fs(dp @ [nm] \<mapsto> File src))"
    using assms(1,3) by (auto simp: tidy_def)
  with w show ?thesis by simp
qed

lemma plain_name_parts:
  assumes "canonical_comp nm"
  shows "pure_parts nm = [nm]" and "take 1 nm \<noteq> ''/''"
  using assms by (cases nm; auto simp: pure_parts_def canonical_comp_def split_sep_plain)+

lemma entry_target:
  assumes "canonical dp" and "canonical_comp nm"
  shows "resolve (dp @ pure_parts nm) = dp @ [nm]"
    and "prefix (path_str (resolve dp)) (path_str (dp @ [nm]))"
proof -
  have c: "canonical (dp @ [nm])" using assms by (simp add: canonical_def)
  show "resolve (dp @ pure_parts nm) = dp @ [nm]"
    using resolve_canonical_id[OF c] plain_name_parts(1)[OF assms(2)] by simp
  show "prefix (path_str (resolve dp)) (path_str (dp @ [nm]))"
    using resolve_canonical_id[OF assms(1)] path_str_append_prefix[of dp "[nm]"] by simp
qed

lemma validate_chain_entry:
  "validate_zip_entry default_config \<lparr> filename = nm, compress_size = 900, file_size = 1000 \<rparr> = Inr ()"
  by (simp add: validate_zip_entry_def default_config_def Let_def)

lemma validate_chain_entries:
  "validate_entries default_config [\<lparr> filename = nm, compress_size = 900, file_size = 1000 \<rparr>]
     \<lparr> file_count = 0, total_uncompressed = 0, total_compressed = 0 \<rparr>
   = Inr \<lparr> file_count = 1, total_uncompressed = 1000, total_compressed = 900 \<rparr>"
  by (simp add: validate_zip_entry_def default_config_def Let_def)

lemma resolve_destination:
  assumes "set dest \<subseteq> chain_names"
  shows "resolve_secure_path example_sandbox (path_str dest) = Inr (example_sandbox @ dest)"
  by (rule resolve_secure_path_plain_comps[OF chain_names_canonical[OF sandbox_names]
        chain_names_canonical[OF assms] norm_comps_path_str[OF chain_names_canonical[OF assms]]])

lemma one_entry_step:
  assumes t: "tidy fs"
    and z: "fs zp = Some (File (Blob 1000 (Some [(\<lparr> filename = nm, compress_size = 900, file_size = 1000 \<rparr>, src)])))"
    and len: "blob_len src = 1000"
    and nm: "canonical_comp nm" "nm \<notin> chain_names"
    and dest: "set dest \<subseteq> chain_names"
    and m: "0 < m"
  shows "\<exists>fs2. tidy fs2 \<and> fs2 (example_sandbox @ dest @ [nm]) = Some (File src)
           \<and> safe_extract_zip default_config example_sandbox fs zp (path_str dest) m
             = (if suffix ''.zip'' (lower nm) then
                  (case safe_extract_zip default_config example_sandbox fs2
                          (example_sandbox @ dest @ [nm])
                          (path_str (example_sandbox @ dest @ [stem nm])) (m - 1) of
                     (fs3, Inl e) \<Rightarrow> (fs3, Inl e)
                   | (fs3, Inr nested) \<Rightarrow> (fs3, Inr ([example_sandbox @ dest @ [nm]] @ nested)))
                else (fs2, Inr [example_sandbox @ dest @ [nm]]))"
proof -
  let ?dp = "example_sandbox @ dest"
  let ?info = "\<lparr> filename = nm, compress_size = 900, file_size = 1000 \<rparr>"
  let ?cfg = default_config
  have dpn: "set ?dp \<subseteq> chain_names" using dest sandbox_names by simp
  have cdp: "canonical ?dp" by (rule chain_names_canonical[OF dpn])
  have oz: "open_zip fs zp = Inr [(?info, src)]" using z by (simp add: open_zip_def)
  have rs: "resolve_secure_path example_sandbox (path_str dest) = Inr ?dp"
    by (rule resolve_destination[OF dest])
  from tidy_mkdir[OF t dpn] obtain fs1 where
    fs1: "mkdir_parents fs ?dp = Inr fs1" "tidy fs1" by blast
  from tidy_mkdir[OF fs1(2) dpn] obtain fs1' where
    fs1': "mkdir_parents fs1 ?dp = Inr fs1'" "tidy fs1'" by blast
  let ?full = "?dp @ [nm]"
  let ?fs2 = "fs1'(?full \<mapsto> File src)"
  from tidy_write[OF fs1'(2) dpn nm(2) len]
  have w: "write_stream ?cfg fs1' ?full src = (?fs2, Inr ())" and t2: "tidy ?fs2" by simp_all
  have nb: "\<not> (take 1 nm = ''/'' \<or> ''..'' \<in> set (pure_parts nm))"
    using plain_name_parts[OF nm(1)] nm(1) by (auto simp: canonical_comp_def)
  have full: "resolve (?dp @ pure_parts nm) = ?full"
    and pf: "prefix (path_str (resolve ?dp)) (path_str ?full)"
    using entry_target[OF cdp nm(1)] by simp_all
  have gi: "getinfo [(?info, src)] nm = Some (?info, src)" by (simp add: getinfo_def)
  have ns: "\<not> suffix ''/'' nm" using nm(1) by (auto simp: suffix_def canonical_comp_def)
  have outer: "safe_extract_zip ?cfg example_sandbox fs zp (path_str dest) m
                 = extract_entries ?cfg example_sandbox [(?info, src)] ?dp m [nm] fs1 []"
    using m oz rs fs1(1) validate_chain_entries[of nm]
    by (subst safe_extract_zip.simps) simp
  have inner: "extract_entries ?cfg example_sandbox [(?info, src)] ?dp m [nm] fs1 []
       = (if suffix ''.zip'' (lower nm) then
            (case safe_extract_zip ?cfg example_sandbox ?fs2 ?full
                    (path_str (?dp @ [stem nm])) (m - 1) of
               (fs3, Inl e) \<Rightarrow> (fs3, Inl e)
             | (fs3, Inr nested) \<Rightarrow> (fs3, Inr ([?full] @ nested)))
          else (?fs2, Inr [?full]))"
  proof -
    have bl: "butlast (example_sandbox @ dest @ [nm]) = example_sandbox @ dest"
      by (simp add: butlast_append)
    have la: "last (example_sandbox @ dest @ [nm]) = nm" by simp
    show ?thesis
      using nb full pf gi ns fs1'(1) w validate_chain_entry[of nm] bl la
      by (subst extract_entries.simps)
         (simp add: Let_def extract_entries.simps split: prod.splits sum.splits)
  qed
  have "?fs2 ?full = Some (File src)" by simp
  with t2 outer inner show ?thesis by (intro exI[of _ ?fs2]) (simp del: fun_upd_apply)
qed

lemma chain_extract:
  assumes "tidy fs" and "fs zp = Some (File (chain d))" and "set dest \<subseteq> chain_names"
  shows "(int d < m \<longrightarrow>
           (\<exists>fs' files. safe_extract_zip default_config example_sandbox fs zp (path_str dest) m
                           = (fs', Inr files) \<and> length files = d + 1))
       \<and> (\<not> int d < m \<longrightarrow>
           (\<exists>fs'. safe_extract_zip default_config example_sandbox fs zp (path_str dest) m
                     = (fs', Inl (ArchiveSecurityError DepthExceeded))))"
  using assms
proof (induction d arbitrary: fs zp dest m)
  case 0
  show ?case
  proof (cases "0 < m")
    case False
    then show ?thesis by (subst safe_extract_zip.simps) simp
  next
    case True
    have nm: "canonical_comp ''f.txt''" "''f.txt'' \<notin> chain_names"
      by (simp_all add: canonical_comp_def chain_names_def)
    have z: "fs zp = Some (File (Blob 1000 (Some [(\<lparr> filename = ''f.txt'', compress_size = 900,
                 file_size = 1000 \<rparr>, Blob 1000 None)])))"
      using 0(2) by simp
    have ns: "\<not> suffix ''.zip'' (lower ''f.txt'')"
      by (simp add: lower_def lower_char_def suffix_to_prefix)
    from one_entry_step[OF 0(1) z _ nm 0(3) True] ns True show ?thesis by auto
  qed
next
  case (Suc d)
  show ?case
  proof (cases "0 < m")
    case False
    then show ?thesis by (subst safe_extract_zip.simps) simp
  next
    case True
    have nm: "canonical_comp ''n.zip''" "''n.zip'' \<notin> chain_names"
      by (simp_all add: canonical_comp_def chain_names_def)
    have z: "fs zp = Some (File (Blob 1000 (Some [(\<lparr> filename = ''n.zip'', compress_size = 900,
                 file_size = 1000 \<rparr>, chain d)])))"
      using Suc(3) by simp
    have ys: "suffix ''.zip'' (lower ''n.zip'')"
      by (simp add: lower_def lower_char_def suffix_to_prefix)
    have st: "stem ''n.zip'' = ''n''" by (simp add: stem_def)
    let ?full = "example_sandbox @ dest @ [''n.zip'']"
    let ?nd = "example_sandbox @ dest @ [''n'']"
    from one_entry_step[OF Suc(2) z blob_len_chain nm Suc(4) True] ys st
    obtain fs2 where fs2: "tidy fs2" "fs2 ?full = Some (File (chain d))"
      and eq: "safe_extract_zip default_config example_sandbox fs zp (path_str dest) m
             = (case safe_extract_zip default_config example_sandbox fs2 ?full (path_str ?nd) (m - 1) of
                  (fs3, Inl e) \<Rightarrow> (fs3, Inl e)
                | (fs3, Inr nested) \<Rightarrow> (fs3, Inr (?full # nested)))"
      by auto
    have nd: "set ?nd \<subseteq> chain_names"
      using Suc(4) sandbox_names by (simp add: chain_names_def)
    note ih = Suc.IH[OF fs2 nd, of "m - 1"]
    show ?thesis
    proof (cases "int d < m - 1")
      case lt: True
      with ih obtain fs' files where
        "safe_extract_zip default_config example_sandbox fs2 ?full (path_str ?nd) (m - 1)
           = (fs', Inr files)" "length files = d + 1" by blast
      with eq lt show ?thesis by auto
    next
      case ge: False
      with ih obtain fs' where
        "safe_extract_zip default_config example_sandbox fs2 ?full (path_str ?nd) (m - 1)
           = (fs', Inl (ArchiveSecurityError DepthExceeded))" by blast
      with eq ge show ?thesis by auto
    qed
  qed
qed

text \<open>
  C8. The budget is \<open>max_depth\<close>, taken from the configuration (5) when the caller gives
  none, and every nested archive is extracted under the budget less one; a budget of zero
  or less is refused. Counting the outermost archive as level one, a chain of \<open>d + 1\<close>
  archives extracts completely exactly if \<open>d + 1\<close> does not exceed the budget, and is
  refused with the depth error otherwise: a chain of as many archives as the budget
  extracts, and the chain one archive deeper is refused.
\<close>

theorem nested_depth_boundary:
  assumes "tidy fs" and "fs zp = Some (File (chain d))" and "set dest \<subseteq> chain_names"
  shows "(int (d + 1) \<le> m \<longrightarrow>
           (\<exists>fs' files. safe_extract_zip default_config example_sandbox fs zp (path_str dest) m
                           = (fs', Inr files) \<and> length files = d + 1))
       \<and> (m < int (d + 1) \<longrightarrow>
           (\<exists>fs'. safe_extract_zip default_config example_sandbox fs zp (path_str dest) m
                     = (fs', Inl (ArchiveSecurityError DepthExceeded))))
       \<and> (d + 1 \<le> 5 \<longrightarrow>
           (\<exists>fs' files. safe_extract_zip_default default_config example_sandbox fs zp (path_str dest)
                           = (fs', Inr files)))
       \<and> (5 < d + 1 \<longrightarrow>
           (\<exists>fs'. safe_extract_zip_default default_config example_sandbox fs zp (path_str dest)
                     = (fs', Inl (ArchiveSecurityError DepthExceeded))))"
proof -
  have dd: "zip_max_recursion_depth default_config = 5" by (simp add: default_config_def)
  from chain_extract[OF assms, of m] chain_extract[OF assms, of 5] show ?thesis
    unfolding safe_extract_zip_default_def dd by (auto simp: not_less)
qed

theorem nested_depth_boundary_witness:
  "tidy (fs_with_zip (chain 4)) \<and> tidy (fs_with_zip (chain 5))
   \<and> (\<exists>fs' files. safe_extract_zip_default default_config example_sandbox (fs_with_zip (chain 4))
                      example_zip_path (path_str [''out'']) = (fs', Inr files))
   \<and> (\<exists>fs'. safe_extract_zip_default default_config example_sandbox (fs_with_zip (chain 5))
                 example_zip_path (path_str [''out''])
               = (fs', Inl (ArchiveSecurityError DepthExceeded)))"
proof -
  have t: "tidy (fs_with_zip b)" for b
    by (simp add: tidy_def fs_with_zip_def example_zip_path_def chain_names_def)
  have z: "fs_with_zip b example_zip_path = Some (File b)" for b by (simp add: fs_with_zip_def)
  have o: "set [''out''] \<subseteq> chain_names" by (simp add: chain_names_def)
  from nested_depth_boundary[OF t z o, of 4 5]
  have one: "\<exists>fs' files. safe_extract_zip_default default_config example_sandbox (fs_with_zip (chain 4))
                      example_zip_path (path_str [''out'']) = (fs', Inr files)" by simp
  from nested_depth_boundary[OF t z o, of 5 5]
  have two: "\<exists>fs'. safe_extract_zip_default default_config example_sandbox (fs_with_zip (chain 5))
                 example_zip_path (path_str [''out''])
               = (fs', Inl (ArchiveSecurityError DepthExceeded))" by simp
  from t one two show ?thesis by blast
qed

end
